theory Spec2Isabelle
  imports Main "HOL-Library.Word"
begin

unbundle bit_operations_syntax

section \<open>The bit reader of \<^verbatim>\<open>src/coliru/07ada2f480ba99ab.cpp\<close>\<close>

text \<open>
  The program reads fields of 1 to 8 bits from a span of \<open>N\<close> bytes. Its integers are
  \<^verbatim>\<open>std::uint8_t\<close> (modelled as \<open>8 word\<close>) and \<^verbatim>\<open>std::size_t\<close> (modelled as
  \<open>64 word\<close>, the width of the platform the recorded output comes from); both wrap around.
  Arithmetic on \<^verbatim>\<open>std::uint8_t\<close> operands is done in \<^verbatim>\<open>int\<close> after integral
  promotion and converted back on assignment or return; the values that occur there are at
  most \<open>255 * 2 ^ 8\<close>, so the promoted arithmetic is modelled in \<open>int\<close> and the conversion
  back is \<open>word_of_int\<close>.

  The program is compiled without \<^verbatim>\<open>NDEBUG\<close>, so a failed \<^verbatim>\<open>assert\<close> aborts it.
  A function that can abort returns \<open>fault + 'a\<close>. Indexing a span beyond its extent is
  undefined in C++; the model makes it the separate fault \<open>OutOfBounds\<close>, so that its
  absence can be stated. The trace lines written to \<^verbatim>\<open>std::cout\<close> are not modelled.
\<close>

type_synonym u8 = "8 word"
type_synonym size_t = "64 word"

datatype fault = AssertionFailed | OutOfBounds

text \<open>Sequencing of computations that may abort: the first fault ends the computation.\<close>

definition and_then :: "fault + 'a \<Rightarrow> ('a \<Rightarrow> fault + 'b) \<Rightarrow> fault + 'b" where
  "and_then m f = (case m of Inl e \<Rightarrow> Inl e | Inr x \<Rightarrow> f x)"

text \<open>\<^verbatim>\<open>assert(c)\<close>.\<close>

definition assert :: "bool \<Rightarrow> fault + unit" where
  "assert c = (if c then Inr () else Inl AssertionFailed)"

subsection \<open>The span\<close>

text \<open>
  \<^verbatim>\<open>std::span<const std::uint8_t, N>\<close>: the bytes are a list, the extent \<open>N\<close> is its
  length as a \<^verbatim>\<open>std::size_t\<close>, and \<^verbatim>\<open>data[i]\<close> is a read at index \<open>i\<close>.
\<close>

definition extent :: "u8 list \<Rightarrow> size_t" where
  "extent data = of_nat (length data)"

definition at :: "u8 list \<Rightarrow> u8 \<Rightarrow> fault + u8" where
  "at data i = (if unat i < length data then Inr (data ! unat i) else Inl OutOfBounds)"

subsection \<open>Bit primitives\<close>

text \<open>
  \<^verbatim>\<open>
  constexpr std::uint8_t select(std::uint8_t data, std::uint8_t start, std::uint8_t stop)
  {
      assert(start < 8);
      assert(stop < 8);
      assert(stop >= start);
      return data & (0xFF >> (7 - stop)) & (0xFF << start);
  }
  \<close>
\<close>

definition select :: "u8 \<Rightarrow> u8 \<Rightarrow> u8 \<Rightarrow> fault + u8" where
  "select data start stop =
     and_then (assert (start < 8)) (\<lambda>_.
     and_then (assert (stop < 8)) (\<lambda>_.
     and_then (assert (stop \<ge> start)) (\<lambda>_.
     Inr (word_of_int
       ((uint data AND drop_bit (nat (7 - uint stop)) (255 :: int))
         AND push_bit (nat (uint start)) (255 :: int))))))"

text \<open>
  \<^verbatim>\<open>
  constexpr std::uint8_t shift(std::uint8_t data, std::uint8_t start, std::uint8_t offset = 0)
  {
      assert(start < 8);
      assert(offset <= 8);
      return (data >> start) << offset;
  }
  \<close>
\<close>

definition shift :: "u8 \<Rightarrow> u8 \<Rightarrow> u8 \<Rightarrow> fault + u8" where
  "shift data start offset =
     and_then (assert (start < 8)) (\<lambda>_.
     and_then (assert (offset \<le> 8)) (\<lambda>_.
     Inr (word_of_int
       (push_bit (nat (uint offset)) (drop_bit (nat (uint start)) (uint data))))))"

subsection \<open>The control block of one extraction\<close>

text \<open>
  The local struct \<^verbatim>\<open>Ctrl\<close> of \<^verbatim>\<open>next\<close>. \<^verbatim>\<open>BitPosition\<close>, \<^verbatim>\<open>ByteIndex\<close> and
  \<^verbatim>\<open>BitCount\<close> are all \<^verbatim>\<open>std::uint8_t\<close>. The member \<^verbatim>\<open>range\<close> is named
  \<open>range'\<close> here.
\<close>

record Ctrl =
  pos :: "u8 \<times> u8"
  twoBytes :: bool
  byte :: "u8 \<times> u8"
  count :: "u8 \<times> u8"
  range' :: "(u8 \<times> u8) \<times> (u8 \<times> u8)"

text \<open>
  The member initialisers of \<^verbatim>\<open>Ctrl(std::size_t cursor, std::size_t n)\<close>, in the order
  of the declarations:
  \<^verbatim>\<open>
    pos{BitPosition(cursor % 8), BitPosition((cursor + n - 1) % 8)}
  , twoBytes{pos.second < pos.first}
  , byte{ByteIndex(cursor / 8), ByteIndex((cursor + n - 1) / 8)}
  , count{std::min<BitCount>(BitCount{8} - BitCount{pos.first}, BitCount(n)),
          twoBytes ? (BitCount{pos.second} + 1) : 0}
  , range{{pos.first, (twoBytes ? BitPosition{7} : pos.second)},
          {BitPosition{0}, twoBytes ? pos.second : 0}}
  \<close>
  The casts to \<^verbatim>\<open>std::uint8_t\<close> keep the low 8 bits (\<open>ucast\<close>).
\<close>

definition Ctrl_members :: "size_t \<Rightarrow> size_t \<Rightarrow> Ctrl" where
  "Ctrl_members cursor n =
     (let pos = (ucast (cursor mod 8) :: u8, ucast ((cursor + n - 1) mod 8) :: u8);
          twoBytes = (snd pos < fst pos);
          byte = (ucast (cursor div 8) :: u8, ucast ((cursor + n - 1) div 8) :: u8);
          count = (min (word_of_int (8 - uint (fst pos)) :: u8) (ucast n :: u8),
                   if twoBytes then word_of_int (uint (snd pos) + 1) else (0 :: u8));
          range = ((fst pos, if twoBytes then 7 else snd pos),
                   (0, if twoBytes then snd pos else 0))
      in \<lparr>pos = pos, twoBytes = twoBytes, byte = byte, count = count, range' = range\<rparr>)"

text \<open>
  The constructor body, with \<open>N\<close> the extent of the enclosing template:
  \<^verbatim>\<open>
  assert(n > 0);
  assert((count.first + count.second) == n);
  assert(count.second == std::max<BitCount>(n - count.first, BitCount{0}));
  assert(byte.first < N);
  assert(byte.second < N);
  \<close>
\<close>

definition Ctrl_ctor :: "size_t \<Rightarrow> size_t \<Rightarrow> size_t \<Rightarrow> fault + Ctrl" where
  "Ctrl_ctor N cursor n =
     (let c = Ctrl_members cursor n in
      and_then (assert (n > 0)) (\<lambda>_.
      and_then (assert
        ((word_of_int (uint (fst (count c)) + uint (snd (count c))) :: size_t) = n)) (\<lambda>_.
      and_then (assert
        (snd (count c) = max (ucast (n - ucast (fst (count c))) :: u8) 0)) (\<lambda>_.
      and_then (assert (ucast (fst (byte c)) < N)) (\<lambda>_.
      and_then (assert (ucast (snd (byte c)) < N)) (\<lambda>_.
      Inr c))))))"

subsection \<open>The extraction\<close>

text \<open>
  \<^verbatim>\<open>
  template<std::size_t N>
  constexpr std::pair<std::uint8_t, std::size_t>
  next(std::span<const std::uint8_t, N> data, std::size_t cursor, std::uint8_t n)
  {
      assert(n > 0);
      assert(n <= 8);
      assert((cursor + n) <= (8 * N));
      const struct Ctrl { ... } ctrl{cursor, n};
      const std::uint8_t first = shift(select(data[ctrl.byte.first],
          ctrl.range.first.first, ctrl.range.first.second), ctrl.range.first.first);
      const std::uint8_t second = shift(select(data[ctrl.byte.second],
          ctrl.range.second.first, ctrl.range.second.second),
          ctrl.range.second.first, ctrl.count.first);
      return std::make_pair(ctrl.twoBytes ? first | second : first, cursor + n);
  }
  \<close>
  \<open>next\<close> is a keyword of Isabelle, so the function is named \<open>next'\<close>.
\<close>

definition next' :: "u8 list \<Rightarrow> size_t \<Rightarrow> u8 \<Rightarrow> fault + (u8 \<times> size_t)" where
  "next' data cursor n =
     and_then (assert (n > 0)) (\<lambda>_.
     and_then (assert (n \<le> 8)) (\<lambda>_.
     and_then (assert (cursor + ucast n \<le> 8 * extent data)) (\<lambda>_.
     and_then (Ctrl_ctor (extent data) cursor (ucast n)) (\<lambda>ctrl.
     and_then (at data (fst (byte ctrl))) (\<lambda>b1.
     and_then (select b1 (fst (fst (range' ctrl))) (snd (fst (range' ctrl)))) (\<lambda>s1.
     and_then (shift s1 (fst (fst (range' ctrl))) 0) (\<lambda>first.
     and_then (at data (snd (byte ctrl))) (\<lambda>b2.
     and_then (select b2 (fst (snd (range' ctrl))) (snd (snd (range' ctrl)))) (\<lambda>s2.
     and_then (shift s2 (fst (snd (range' ctrl))) (fst (count ctrl))) (\<lambda>second.
     Inr (if twoBytes ctrl then word_of_int (uint first OR uint second) else first,
          cursor + ucast n)))))))))))"

subsection \<open>The reader\<close>

text \<open>
  \<^verbatim>\<open>
  template<std::size_t N>
  struct A
  {
      std::span<const std::uint8_t, N> data;
      struct { std::size_t read = 0; std::size_t write = 0; } cursor;
  };
  \<close>
\<close>

record A =
  data :: "u8 list"
  cursor_read :: size_t
  cursor_write :: size_t

text \<open>\<^verbatim>\<open>std::bitset<8>{v}.to_string()\<close>: the eight bits, most significant first.\<close>

definition bitset8_to_string :: "u8 \<Rightarrow> string" where
  "bitset8_to_string v =
     map (\<lambda>i. if bit v i then CHR ''1'' else CHR ''0'') [7, 6, 5, 4, 3, 2, 1, 0]"

text \<open>
  \<^verbatim>\<open>
  template<std::size_t N, class T>
  std::string doNext(T&& t) { return [&t] {
      auto r = next(t.data, t.cursor.read, std::uint8_t(N));
      t.cursor.read = r.second;
      return std::bitset<8>{r.first}.to_string(); }(); }
  \<close>
  Here \<open>N\<close> is the width of the field, a \<^verbatim>\<open>std::size_t\<close> that is cast to
  \<^verbatim>\<open>std::uint8_t\<close>. The model returns the reader as it is when the call ends, together
  with the outcome: when \<^verbatim>\<open>next\<close> aborts, the assignment to the cursor has not run.
\<close>

definition doNext :: "size_t \<Rightarrow> A \<Rightarrow> A \<times> (fault + string)" where
  "doNext N t =
     (case next' (data t) (cursor_read t) (ucast N) of
        Inl e \<Rightarrow> (t, Inl e)
      | Inr r \<Rightarrow> (t\<lparr>cursor_read := snd r\<rparr>, Inr (bitset8_to_string (fst r))))"

text \<open>
  The buffer of \<^verbatim>\<open>main\<close>:
  \<^verbatim>\<open>std::array<std::uint8_t, 3> s = {0b11111101, 0b10001010, 0b11110111};\<close>
\<close>

definition main_s :: "u8 list" where
  "main_s = [253, 138, 247]"

section \<open>Properties\<close>

subsection \<open>Bit primitives\<close>

lemma bit_255_iff: "bit (255 :: int) q \<longleftrightarrow> q < 8"
proof -
  have "(255 :: int) = mask 8" by (simp add: mask_eq_exp_minus_1)
  then show ?thesis by (simp only: bit_mask_iff) simp
qed

lemma select_Inr:
  assumes "start \<le> stop" "stop \<le> 7"
  shows "select b start stop = Inr (word_of_int
       ((uint b AND drop_bit (nat (7 - uint stop)) (255 :: int))
         AND push_bit (nat (uint start)) (255 :: int)))"
proof -
  from assms have "unat start \<le> unat stop" "unat stop \<le> 7"
    by (simp_all add: word_le_nat_alt)
  then have "start < 8" "stop < 8"
    by (simp_all add: word_less_nat_alt)
  with assms show ?thesis
    by (simp add: select_def and_then_def assert_def)
qed

lemma bit_select_raw:
  fixes b start stop :: u8
  assumes "unat stop \<le> 7"
  shows "bit (word_of_int
       ((uint b AND drop_bit (nat (7 - uint stop)) (255 :: int))
         AND push_bit (nat (uint start)) (255 :: int)) :: u8) i
     \<longleftrightarrow> unat start \<le> i \<and> i \<le> unat stop \<and> bit b i"
proof -
  have a: "nat (7 - uint stop) = 7 - unat stop"
    by (simp only: uint_nat)
  have b: "nat (uint start) = unat start"
    by simp
  have c: "bit (drop_bit (7 - unat stop) (255 :: int)) i \<longleftrightarrow> i \<le> unat stop"
    using assms by (simp only: bit_drop_bit_eq comp_def bit_255_iff) linarith
  have d: "bit (push_bit (unat start) (255 :: int)) i
      \<longleftrightarrow> unat start \<le> i \<and> i < unat start + 8"
    by (simp only: bit_push_bit_iff bit_255_iff) auto
  have e: "bit b i \<Longrightarrow> i < 8"
    using bit_imp_le_length [of b i] by simp
  show ?thesis
    unfolding a b
    by (simp only: bit_word_of_int_iff bit_and_iff c d bit_uint_iff) (use e in auto)
qed

lemma shift_Inr:
  assumes "start \<le> 7" "offset \<le> 8"
  shows "shift b start offset = Inr (word_of_int
       (push_bit (nat (uint offset)) (drop_bit (nat (uint start)) (uint b))))"
proof -
  from assms(1) have "unat start \<le> 7" by (simp add: word_le_nat_alt)
  then have "start < 8" by (simp add: word_less_nat_alt)
  with assms(2) show ?thesis
    by (simp add: shift_def and_then_def assert_def)
qed

lemma bit_shift_raw:
  fixes b start offset :: u8
  shows "bit (word_of_int
       (push_bit (nat (uint offset)) (drop_bit (nat (uint start)) (uint b))) :: u8) i
     \<longleftrightarrow> i < 8 \<and> unat offset \<le> i \<and> bit b (unat start + (i - unat offset))"
proof -
  have a: "nat (uint offset) = unat offset" "nat (uint start) = unat start"
    by simp_all
  have e: "\<And>j. bit b j \<Longrightarrow> j < 8"
    using bit_imp_le_length [of b] by simp
  show ?thesis
    unfolding a
    by (simp only: bit_word_of_int_iff bit_drop_bit_eq comp_def bit_push_bit_iff bit_uint_iff)
      (use e in auto)
qed

lemma unat_shift_raw:
  fixes b start offset :: u8
  shows "unat (word_of_int (push_bit (nat (uint offset)) (drop_bit (nat (uint start)) (uint b))) :: u8)
     = (unat b div 2 ^ unat start * 2 ^ unat offset) mod 2 ^ 8"
proof -
  have "push_bit (nat (uint offset)) (drop_bit (nat (uint start)) (uint b))
      = int (unat b div 2 ^ unat start * 2 ^ unat offset)"
    by (simp only: push_bit_eq_mult drop_bit_eq_div unat_eq_nat_uint [symmetric]
        of_nat_mult of_nat_power of_nat_numeral zdiv_int uint_nat nat_int)
  then have "(word_of_int (push_bit (nat (uint offset)) (drop_bit (nat (uint start)) (uint b))) :: u8)
      = of_nat (unat b div 2 ^ unat start * 2 ^ unat offset)"
    by simp
  then show ?thesis
    by (simp only: unat_of_nat) simp
qed

subsection \<open>Bit positions and byte indices\<close>

lemma decomp8: "(p :: nat) + j = (p mod 8 + j) + 8 * (p div 8)"
  by simp

lemma same_byte:
  assumes "p mod 8 + j < 8"
  shows "(p + j) mod 8 = p mod 8 + j" and "(p + j) div 8 = p div (8 :: nat)"
proof -
  show "(p + j) mod 8 = p mod 8 + j"
    unfolding decomp8 [of p j] using assms by (simp only: mod_mult_self2 mod_less)
  have "(p mod 8 + j) div 8 = 0" using assms by simp
  then show "(p + j) div 8 = p div 8"
    by (subst decomp8 [of p j], subst div_mult_self2) simp_all
qed

lemma next_byte:
  assumes "8 \<le> p mod 8 + j" "j \<le> 8"
  shows "(p + j) mod 8 = p mod 8 + j - 8" and "(p + j) div 8 = p div (8 :: nat) + 1"
proof -
  have "p mod 8 < 8" by simp
  then have lt: "p mod 8 + j - 8 < 8"
    using assms(2) by linarith
  have e: "p mod 8 + j = (p mod 8 + j - 8) + 8 * 1" using assms(1) by simp
  have m: "(p mod 8 + j) mod 8 = p mod 8 + j - 8"
    by (subst e, simp only: mod_mult_self2) (use lt in simp)
  have d: "(p mod 8 + j) div 8 = 1"
    by (subst e, simp only: div_mult_self2) (use lt in simp)
  show "(p + j) mod 8 = p mod 8 + j - 8"
    unfolding decomp8 [of p j] by (simp only: mod_mult_self2 m)
  show "(p + j) div 8 = p div 8 + 1"
    by (subst decomp8 [of p j], subst div_mult_self2) (simp_all add: d)
qed

lemma unat_cast_u8_size_t: "unat (ucast (n :: u8) :: size_t) = unat n"
proof -
  have "unat n < 2 ^ 8" using unsigned_less [of n] by simp
  then have "unat n < 2 ^ 64" by simp
  then show ?thesis by (simp add: unsigned_ucast_eq take_bit_nat_eq_self)
qed

lemma unat_size_t_u8: "unat (ucast (w :: size_t) :: u8) = unat w mod 256"
  by (simp add: unsigned_ucast_eq take_bit_eq_mod)

lemma unat_plus_one_u8:
  assumes "unat (x :: u8) < 8"
  shows "unat (x + 1) = unat x + 1"
  using assms by (simp add: unat_add_lem [THEN iffD1])

lemma unat_8_minus_u8:
  assumes "unat (x :: u8) < 8"
  shows "unat (8 - x) = 8 - unat x"
  using assms by (simp add: unat_sub word_le_nat_alt)

lemma unat_min_word: "unat (min (a :: u8) b) = min (unat a) (unat b)"
  by (simp add: min_def word_le_nat_alt)

lemma unat_plus_minus_one:
  assumes "0 < unat n" "unat (cursor :: size_t) + unat (n :: size_t) < 2 ^ 64"
  shows "unat (cursor + n - 1) = unat cursor + (unat n - 1)"
proof -
  have a: "unat (cursor + n) = unat cursor + unat n"
    using assms(2) by (simp add: unat_add_lem [THEN iffD1])
  then have "cursor + n \<noteq> 0" using assms(1) by (metis add_is_0 less_numeral_extra(3) unat_0)
  then show ?thesis using a assms(1) by (simp add: unat_minus_one)
qed

subsection \<open>The members of the control block\<close>

lemma pos_first:
  "unat (fst (pos (Ctrl_members cursor n))) = unat cursor mod 8"
  by (simp add: Ctrl_members_def Let_def unat_size_t_u8 unat_mod)

lemma pos_second:
  assumes "0 < unat n" "unat cursor + unat n < 2 ^ 64"
  shows "unat (snd (pos (Ctrl_members cursor n))) = (unat cursor + (unat n - 1)) mod 8"
  by (simp add: Ctrl_members_def Let_def unat_size_t_u8 unat_mod unat_plus_minus_one [OF assms])

lemma twoBytes_eq: "twoBytes (Ctrl_members cursor n)
    \<longleftrightarrow> unat (snd (pos (Ctrl_members cursor n))) < unat (fst (pos (Ctrl_members cursor n)))"
  by (simp add: Ctrl_members_def Let_def word_less_nat_alt)

lemma span_arith:
  fixes s k :: nat
  assumes "0 < k"
  shows "s + (k - 1) < 8 \<longleftrightarrow> \<not> 8 < s + k"
  using assms by linarith

lemma twoBytes_iff:
  assumes "0 < unat n" "unat n \<le> 8" "unat cursor + unat n < 2 ^ 64"
  shows "twoBytes (Ctrl_members cursor n) \<longleftrightarrow> 8 < unat cursor mod 8 + unat n"
proof (cases "unat cursor mod 8 + (unat n - 1) < 8")
  case True
  have "\<not> unat cursor mod 8 + (unat n - 1) < unat cursor mod 8" by simp
  moreover have "\<not> 8 < unat cursor mod 8 + unat n"
    using True span_arith [OF assms(1)] by blast
  ultimately show ?thesis
    by (simp only: twoBytes_eq pos_first pos_second [OF assms(1,3)] same_byte(1) [OF True])
next
  case False
  then have ge: "8 \<le> unat cursor mod 8 + (unat n - 1)" by simp
  have le: "unat n - 1 \<le> 8" using assms(2) by simp
  have "unat n - 1 < 8" using assms(1,2) by simp
  then have "unat cursor mod 8 + (unat n - 1) - 8 < unat cursor mod 8" using ge by simp
  moreover have "8 < unat cursor mod 8 + unat n"
    using False span_arith [OF assms(1)] by blast
  ultimately show ?thesis
    by (simp only: twoBytes_eq pos_first pos_second [OF assms(1,3)] next_byte(1) [OF ge le])
qed

lemma byte_first:
  "unat (fst (byte (Ctrl_members cursor n))) = unat cursor div 8 mod 256"
  by (simp add: Ctrl_members_def Let_def unat_size_t_u8 unat_div)

lemma byte_second:
  assumes "0 < unat n" "unat cursor + unat n < 2 ^ 64"
  shows "unat (snd (byte (Ctrl_members cursor n))) = (unat cursor + (unat n - 1)) div 8 mod 256"
  by (simp add: Ctrl_members_def Let_def unat_size_t_u8 unat_div unat_plus_minus_one [OF assms])

lemma count_first_eq:
  "fst (count (Ctrl_members cursor n))
     = min (8 - fst (pos (Ctrl_members cursor n))) (ucast n)"
  by (simp add: Ctrl_members_def Let_def)

lemma count_first:
  assumes "unat n \<le> 8"
  shows "unat (fst (count (Ctrl_members cursor n))) = min (8 - unat cursor mod 8) (unat n)"
proof -
  have "unat (fst (pos (Ctrl_members cursor n))) < 8" by (simp add: pos_first)
  then show ?thesis using assms
    by (simp add: count_first_eq unat_min_word unat_8_minus_u8 unat_size_t_u8 pos_first)
qed

lemma count_second_eq:
  "snd (count (Ctrl_members cursor n))
     = (if twoBytes (Ctrl_members cursor n)
        then snd (pos (Ctrl_members cursor n)) + 1 else 0)"
  by (simp add: Ctrl_members_def Let_def)

lemma count_second:
  assumes "0 < unat n" "unat n \<le> 8" "unat cursor + unat n < 2 ^ 64"
  shows "unat (snd (count (Ctrl_members cursor n)))
     = (if 8 < unat cursor mod 8 + unat n then unat cursor mod 8 + unat n - 8 else 0)"
proof (cases "8 < unat cursor mod 8 + unat n")
  case True
  then have ge: "8 \<le> unat cursor mod 8 + (unat n - 1)" by simp
  have le: "unat n - 1 \<le> 8" using assms(2) by simp
  have "unat (snd (pos (Ctrl_members cursor n))) = unat cursor mod 8 + (unat n - 1) - 8"
    by (simp only: pos_second [OF assms(1,3)] next_byte(1) [OF ge le])
  moreover from this have "unat (snd (pos (Ctrl_members cursor n))) < 8"
    using assms(2) by simp
  ultimately show ?thesis using True
    by (simp add: count_second_eq twoBytes_iff [OF assms] unat_plus_one_u8)
next
  case False
  then show ?thesis
    by (simp add: count_second_eq twoBytes_iff [OF assms])
qed

lemma range_first_first: "fst (fst (range' (Ctrl_members cursor n))) = fst (pos (Ctrl_members cursor n))"
  by (simp add: Ctrl_members_def Let_def)

lemma range_first_second: 
  "snd (fst (range' (Ctrl_members cursor n))) 
    = (if twoBytes (Ctrl_members cursor n) then 7 else snd (pos (Ctrl_members cursor n)))"
  by (simp add: Ctrl_members_def Let_def)

lemma range_second_first: "fst (snd (range' (Ctrl_members cursor n))) = 0"
  by (simp add: Ctrl_members_def Let_def)

lemma range_second_second: 
  "snd (snd (range' (Ctrl_members cursor n))) 
    = (if twoBytes (Ctrl_members cursor n) then snd (pos (Ctrl_members cursor n)) else 0)"
  by (simp add: Ctrl_members_def Let_def)

subsection \<open>The assertions of the constructor\<close>

lemma count_arith:
  fixes s k :: nat
  assumes "0 < k" "s < 8"
  shows "min (8 - s) k + (if 8 < s + k then s + k - 8 else 0) = k"
  using assms by (auto simp add: min_def)

lemma count_sum:
  assumes "0 < unat n" "unat n \<le> 8" "unat cursor + unat n < 2 ^ 64"
  shows "unat (fst (count (Ctrl_members cursor n))) + unat (snd (count (Ctrl_members cursor n)))
     = unat n"
proof -
  have "unat cursor mod 8 < 8" by simp
  from count_arith [OF assms(1) this] show ?thesis
    by (simp only: count_first [OF assms(2)] count_second [OF assms])
qed

lemma count_first_le:
  assumes "unat n \<le> 8"
  shows "unat (fst (count (Ctrl_members cursor n))) \<le> unat n"
  unfolding count_first [OF assms] by simp

lemma Ctrl_assert_sum:
  assumes "0 < unat n" "unat n \<le> 8" "unat cursor + unat n < 2 ^ 64"
  shows "(word_of_int (uint (fst (count (Ctrl_members cursor n)))
            + uint (snd (count (Ctrl_members cursor n)))) :: size_t) = n"
proof -
  have "uint (fst (count (Ctrl_members cursor n))) + uint (snd (count (Ctrl_members cursor n)))
      = int (unat n)"
    by (simp only: uint_nat of_nat_add [symmetric] count_sum [OF assms])
  then show ?thesis by simp
qed

lemma Ctrl_assert_max:
  fixes n :: size_t
  assumes "0 < unat n" "unat n \<le> 8" "unat cursor + unat n < 2 ^ 64"
  shows "snd (count (Ctrl_members cursor n))
     = max (ucast (n - ucast (fst (count (Ctrl_members cursor n)))) :: u8) 0"
proof -
  let ?cf = "fst (count (Ctrl_members cursor n))"
  let ?cs = "snd (count (Ctrl_members cursor n))"
  have le: "(ucast ?cf :: size_t) \<le> n"
    using count_first_le [OF assms(2), of cursor] by (simp add: word_le_nat_alt unat_cast_u8_size_t)
  have "unat (n - ucast ?cf) = unat n - unat ?cf"
    by (simp add: unat_sub [OF le] unat_cast_u8_size_t)
  also have "\<dots> = unat ?cs" using count_sum [OF assms] by simp
  finally have "unat (ucast (n - ucast ?cf) :: u8) = unat ?cs mod 256"
    by (simp only: unat_size_t_u8)
  moreover have "unat ?cs < 256" using unsigned_less [of ?cs] by simp
  ultimately have "unat (ucast (n - ucast ?cf) :: u8) = unat ?cs" by simp
  then have "(ucast (n - ucast ?cf) :: u8) = ?cs" by (simp only: word_unat_eq_iff)
  then show ?thesis by (simp add: max_def)
qed

lemma byte_first_less:
  fixes cursor n N :: size_t
  assumes "0 < unat n" "unat cursor + unat n \<le> 8 * unat N"
  shows "ucast (fst (byte (Ctrl_members cursor n))) < N"
proof -
  have "unat cursor < unat N * 8" using assms by simp
  then have "unat cursor div 8 < unat N" by (rule less_mult_imp_div_less)
  moreover have "unat cursor div 8 mod 256 \<le> unat cursor div 8" by (rule mod_less_eq_dividend)
  ultimately show ?thesis
    by (simp add: word_less_nat_alt unat_cast_u8_size_t byte_first)
qed

lemma byte_second_less:
  fixes cursor n N :: size_t
  assumes "0 < unat n" "unat cursor + unat n \<le> 8 * unat N" "unat cursor + unat n < 2 ^ 64"
  shows "ucast (snd (byte (Ctrl_members cursor n))) < N"
proof -
  have "unat cursor + (unat n - 1) < unat N * 8" using assms(1,2) by simp
  then have "(unat cursor + (unat n - 1)) div 8 < unat N" by (rule less_mult_imp_div_less)
  moreover have "(unat cursor + (unat n - 1)) div 8 mod 256 \<le> (unat cursor + (unat n - 1)) div 8"
    by (rule mod_less_eq_dividend)
  ultimately show ?thesis
    by (simp add: word_less_nat_alt unat_cast_u8_size_t byte_second [OF assms(1,3)])
qed

lemma Ctrl_ctor_Inr:
  fixes cursor n N :: size_t
  assumes "0 < unat n" "unat n \<le> 8" "unat cursor + unat n \<le> 8 * unat N"
    "unat cursor + unat n < 2 ^ 64"
  shows "Ctrl_ctor N cursor n = Inr (Ctrl_members cursor n)"
proof -
  have "0 < n" using assms(1) by (simp add: word_less_nat_alt)
  with Ctrl_assert_sum [OF assms(1,2,4)] Ctrl_assert_max [OF assms(1,2,4), symmetric]
    byte_first_less [OF assms(1,3)] byte_second_less [OF assms(1,3,4)]
  show ?thesis
    by (simp add: Ctrl_ctor_def Let_def assert_def and_then_def)
qed

subsection \<open>The extraction, bit by bit\<close>

lemma unat_extent:
  assumes "length buf < 2 ^ 64"
  shows "unat (extent buf) = length buf"
  using assms by (simp add: extent_def unat_of_nat)

lemma unat_8_extent:
  assumes "8 * length buf < 2 ^ 64"
  shows "unat (8 * extent buf) = 8 * length buf"
proof -
  have l: "length buf < 2 ^ 64" using assms by simp
  have "unat (8 :: size_t) * unat (extent buf) < 2 ^ LENGTH(64)"
    using assms by (simp add: unat_extent [OF l])
  then have "unat (8 * extent buf) = unat (8 :: size_t) * unat (extent buf)"
    by (simp only: unat_mult_lem)
  then show ?thesis by (simp add: unat_extent [OF l])
qed

lemma unat_cursor_plus:
  fixes cursor :: size_t and n :: u8
  assumes "unat cursor + unat n < 2 ^ 64"
  shows "unat (cursor + ucast n) = unat cursor + unat n"
proof -
  have "unat cursor + unat (ucast n :: size_t) < 2 ^ LENGTH(64)"
    using assms by (simp add: unat_cast_u8_size_t)
  then have "unat (cursor + ucast n) = unat cursor + unat (ucast n :: size_t)"
    by (simp only: unat_add_lem)
  then show ?thesis by (simp only: unat_cast_u8_size_t)
qed

lemma at_Inr:
  assumes "unat i < length buf"
  shows "at buf i = Inr (buf ! unat i)"
  using assms by (simp add: at_def)

lemma or_promoted:
  fixes a b :: u8
  shows "word_of_int (uint a OR uint b) = a OR b"
  by (rule bit_word_eqI) (auto simp add: bit_word_of_int_iff bit_or_iff bit_uint_iff)

lemma next'_steps:
  assumes "0 < n" and "n \<le> 8" and "cursor + ucast n \<le> 8 * extent buf"
    and "Ctrl_ctor (extent buf) cursor (ucast n) = Inr c"
    and "at buf (fst (byte c)) = Inr b1"
    and "select b1 (fst (fst (range' c))) (snd (fst (range' c))) = Inr s1"
    and "shift s1 (fst (fst (range' c))) 0 = Inr first"
    and "at buf (snd (byte c)) = Inr b2"
    and "select b2 (fst (snd (range' c))) (snd (snd (range' c))) = Inr s2"
    and "shift s2 (fst (snd (range' c))) (fst (count c)) = Inr second"
  shows "next' buf cursor n
     = Inr (if twoBytes c then first OR second else first, cursor + ucast n)"
  using assms by (simp add: next'_def and_then_def assert_def or_promoted)

text \<open>The two parts, bit by bit.\<close>

lemma bit_first_part:
  fixes b1 start stop :: u8
  assumes "start \<le> stop" "stop \<le> 7"
  shows "\<exists>s1 first. select b1 start stop = Inr s1 \<and> shift s1 start 0 = Inr first
     \<and> (\<forall>i. bit first i \<longleftrightarrow> unat start + i \<le> unat stop \<and> bit b1 (unat start + i))"
proof -
  let ?s1 = "word_of_int ((uint b1 AND drop_bit (nat (7 - uint stop)) (255 :: int))
         AND push_bit (nat (uint start)) (255 :: int)) :: u8"
  let ?first = "word_of_int (push_bit (nat (uint (0 :: u8))) (drop_bit (nat (uint start)) (uint ?s1))) :: u8"
  have st: "unat stop \<le> 7" using assms(2) by (simp add: word_le_nat_alt)
  have "start \<le> 7" using assms by simp
  then have sh: "shift ?s1 start 0 = Inr ?first" by (intro shift_Inr) simp_all
  have "bit ?first i \<longleftrightarrow> unat start + i \<le> unat stop \<and> bit b1 (unat start + i)" for i
    unfolding bit_shift_raw bit_select_raw [OF st] using st by auto
  with select_Inr [OF assms, of b1] sh show ?thesis by blast
qed

lemma bit_second_part:
  fixes b2 stop offset :: u8
  assumes "stop \<le> 7" "offset \<le> 8"
  shows "\<exists>s2 second. select b2 0 stop = Inr s2 \<and> shift s2 0 offset = Inr second
     \<and> (\<forall>i. bit second i \<longleftrightarrow>
           i < 8 \<and> unat offset \<le> i \<and> i - unat offset \<le> unat stop \<and> bit b2 (i - unat offset))"
proof -
  let ?s2 = "word_of_int ((uint b2 AND drop_bit (nat (7 - uint stop)) (255 :: int))
         AND push_bit (nat (uint (0 :: u8))) (255 :: int)) :: u8"
  let ?second = "word_of_int (push_bit (nat (uint offset)) (drop_bit (nat (uint (0 :: u8))) (uint ?s2))) :: u8"
  have st: "unat stop \<le> 7" using assms(1) by (simp add: word_le_nat_alt)
  have sh: "shift ?s2 0 offset = Inr ?second" using assms(2) by (intro shift_Inr) simp_all
  have se: "select b2 0 stop = Inr ?s2" using assms(1) by (intro select_Inr) simp_all
  have "bit ?second i \<longleftrightarrow>
           i < 8 \<and> unat offset \<le> i \<and> i - unat offset \<le> unat stop \<and> bit b2 (i - unat offset)" for i
    unfolding bit_shift_raw bit_select_raw [OF st] by auto
  with se sh show ?thesis by blast
qed

lemma next'_bits:
  fixes cursor :: size_t and n :: u8
  assumes n: "0 < n" "n \<le> 8"
    and fit: "unat cursor + unat n \<le> 8 * length buf"
    and cap: "8 * length buf < 2 ^ 64"
  shows "\<exists>v. next' buf cursor n = Inr (v, cursor + ucast n)
     \<and> (\<forall>i. bit v i \<longleftrightarrow>
           i < unat n \<and> bit (buf ! ((unat cursor + i) div 8 mod 256)) ((unat cursor + i) mod 8))"
proof -
  define c where "c = Ctrl_members cursor (ucast n)"
  define s where "s = unat cursor mod 8"
  define k where "k = unat n"
  have k: "0 < k" "k \<le> 8"
    using n by (simp_all add: k_def word_less_nat_alt word_le_nat_alt)
  have kn: "0 < unat (ucast n :: size_t)" "unat (ucast n :: size_t) \<le> 8"
    using k by (simp_all add: unat_cast_u8_size_t k_def)
  have s: "s < 8" by (simp add: s_def)
  have len: "length buf < 2 ^ 64" using cap by simp
  have nowrap: "unat cursor + unat n < 2 ^ 64" using fit cap by simp
  have nowrap': "unat cursor + unat (ucast n :: size_t) < 2 ^ 64"
    using nowrap by (simp only: unat_cast_u8_size_t)
  have fit': "unat cursor + unat (ucast n :: size_t) \<le> 8 * unat (extent buf)"
    using fit by (simp only: unat_cast_u8_size_t unat_extent [OF len])
  have a3: "cursor + ucast n \<le> 8 * extent buf"
    using fit by (simp add: word_le_nat_alt unat_cursor_plus [OF nowrap] unat_8_extent [OF cap])
  have ctor: "Ctrl_ctor (extent buf) cursor (ucast n) = Inr c"
    unfolding c_def by (rule Ctrl_ctor_Inr [OF kn fit' nowrap'])
  have p1: "unat (fst (pos c)) = s"
    by (simp add: c_def s_def pos_first)
  have p2: "unat (snd (pos c)) = (unat cursor + (k - 1)) mod 8"
    by (simp add: c_def k_def pos_second [OF kn(1) nowrap'] unat_cast_u8_size_t)
  have two: "twoBytes c \<longleftrightarrow> 8 < s + k"
    by (simp add: c_def s_def k_def twoBytes_iff [OF kn nowrap'] unat_cast_u8_size_t)
  have i1: "unat (fst (byte c)) = unat cursor div 8 mod 256"
    by (simp add: c_def byte_first)
  have i2: "unat (snd (byte c)) = (unat cursor + (k - 1)) div 8 mod 256"
    by (simp add: c_def k_def byte_second [OF kn(1) nowrap'] unat_cast_u8_size_t)
  have r11: "fst (fst (range' c)) = fst (pos c)"
    by (simp add: c_def range_first_first)
  have r12: "snd (fst (range' c)) = (if twoBytes c then 7 else snd (pos c))"
    by (simp add: c_def range_first_second)
  have r21: "fst (snd (range' c)) = 0"
    by (simp add: c_def range_second_first)
  have r22: "snd (snd (range' c)) = (if twoBytes c then snd (pos c) else 0)"
    by (simp add: c_def range_second_second)
  have cf: "unat (fst (count c)) = min (8 - s) k"
    by (simp add: c_def s_def k_def count_first [OF kn(2)] unat_cast_u8_size_t)
  have lt1: "unat (fst (byte c)) < length buf"
    using byte_first_less [OF kn(1) fit'] 
    by (simp add: c_def word_less_nat_alt unat_cast_u8_size_t unat_extent [OF len])
  have lt2: "unat (snd (byte c)) < length buf"
    using byte_second_less [OF kn(1) fit' nowrap'] 
    by (simp add: c_def word_less_nat_alt unat_cast_u8_size_t unat_extent [OF len])
  let ?b1 = "buf ! unat (fst (byte c))"
  let ?b2 = "buf ! unat (snd (byte c))"
  have e1: "at buf (fst (byte c)) = Inr ?b1" by (rule at_Inr [OF lt1])
  have e2: "at buf (snd (byte c)) = Inr ?b2" by (rule at_Inr [OF lt2])
  show ?thesis
  proof (cases "8 < s + k")
    case False
    then have sk: "s + (k - 1) < 8" using k by simp
    have sk': "unat cursor mod 8 + (k - 1) < 8" using sk by (simp only: s_def)
    have e: "unat (snd (pos c)) = s + (k - 1)"
      by (simp only: p2 same_byte(1) [OF sk'] s_def)
    have nt: "\<not> twoBytes c" using False two by simp
    have le: "fst (fst (range' c)) \<le> snd (fst (range' c))" "snd (fst (range' c)) \<le> 7"
      using sk by (simp_all add: r11 r12 nt word_le_nat_alt p1 e)
    from bit_first_part [OF le, of ?b1] obtain s1 first where
      s1: "select ?b1 (fst (fst (range' c))) (snd (fst (range' c))) = Inr s1"
      and f: "shift s1 (fst (fst (range' c))) 0 = Inr first"
      and bf0: "\<And>i. bit first i \<longleftrightarrow> s + i \<le> s + (k - 1) \<and> bit ?b1 (s + i)"
      by (auto simp add: r11 r12 nt p1 e)
    have "s + i \<le> s + (k - 1) \<longleftrightarrow> i < k" for i using k by linarith
    then have bf: "bit first i \<longleftrightarrow> i < k \<and> bit ?b1 (s + i)" for i
      by (simp only: bf0)
    have le2: "snd (snd (range' c)) \<le> 7" "fst (count c) \<le> 8"
      using k by (simp_all add: r22 nt word_le_nat_alt cf)
    from bit_second_part [OF le2, of ?b2] obtain s2 second where
      s2: "select ?b2 (fst (snd (range' c))) (snd (snd (range' c))) = Inr s2"
      and g: "shift s2 (fst (snd (range' c))) (fst (count c)) = Inr second"
      by (auto simp add: r21)
    have res: "next' buf cursor n = Inr (first, cursor + ucast n)"
      using next'_steps [OF n a3 ctor e1 s1 f e2 s2 g] nt by simp
    have "bit first i \<longleftrightarrow>
           i < unat n \<and> bit (buf ! ((unat cursor + i) div 8 mod 256)) ((unat cursor + i) mod 8)" for i
    proof (cases "i < k")
      case True
      then have "unat cursor mod 8 + i < 8" using sk by (simp add: s_def)
      then show ?thesis
        unfolding bf using True by (simp add: same_byte i1 s_def k_def)
    next
      case False
      then show ?thesis unfolding bf using k by (simp add: k_def)
    qed
    with res show ?thesis by blast
  next
    case True
    then have ge: "8 \<le> unat cursor mod 8 + (k - 1)" by (simp add: s_def)
    have kl: "k - 1 \<le> 8" using k by simp
    have e: "unat (snd (pos c)) = s + (k - 1) - 8"
      by (simp only: p2 next_byte(1) [OF ge kl] s_def)
    have tb: "twoBytes c" using True two by simp
    have le: "fst (fst (range' c)) \<le> snd (fst (range' c))" "snd (fst (range' c)) \<le> 7"
      using s by (simp_all add: r11 r12 tb word_le_nat_alt p1)
    from bit_first_part [OF le, of ?b1] obtain s1 first where
      s1: "select ?b1 (fst (fst (range' c))) (snd (fst (range' c))) = Inr s1"
      and f: "shift s1 (fst (fst (range' c))) 0 = Inr first"
      and bf: "\<And>i. bit first i \<longleftrightarrow> s + i \<le> 7 \<and> bit ?b1 (s + i)"
      by (auto simp add: r11 r12 tb p1)
    have le2: "snd (snd (range' c)) \<le> 7" "fst (count c) \<le> 8"
      using k s by (simp_all add: r22 tb word_le_nat_alt cf e)
    have cf': "unat (fst (count c)) = 8 - s" using True by (simp add: cf)
    from bit_second_part [OF le2, of ?b2] obtain s2 second where
      s2: "select ?b2 (fst (snd (range' c))) (snd (snd (range' c))) = Inr s2"
      and g: "shift s2 (fst (snd (range' c))) (fst (count c)) = Inr second"
      and bs0: "\<And>i. bit second i \<longleftrightarrow>
           i < 8 \<and> 8 - s \<le> i \<and> i - (8 - s) \<le> s + (k - 1) - 8 \<and> bit ?b2 (i - (8 - s))"
      by (auto simp add: r21 r22 tb e cf')
    have bs: "bit second i \<longleftrightarrow> 8 \<le> s + i \<and> i < k \<and> bit ?b2 (s + i - 8)" for i
    proof (cases "8 \<le> s + i")
      case up: True
      have "i - (8 - s) = s + i - 8" using s up by linarith
      moreover have "8 - s \<le> i" using up by linarith
      moreover have "s + i - 8 \<le> s + (k - 1) - 8 \<longleftrightarrow> i < k" using True up k by linarith
      moreover have "i < k \<Longrightarrow> i < 8" using k by linarith
      ultimately show ?thesis using up by (auto simp only: bs0)
    next
      case down: False
      then have "\<not> 8 - s \<le> i" by linarith
      with down show ?thesis by (simp only: bs0) simp
    qed
    have res: "next' buf cursor n = Inr (first OR second, cursor + ucast n)"
      using next'_steps [OF n a3 ctor e1 s1 f e2 s2 g] tb by simp
    have "bit (first OR second) i \<longleftrightarrow>
           i < unat n \<and> bit (buf ! ((unat cursor + i) div 8 mod 256)) ((unat cursor + i) mod 8)" for i
    proof (cases "s + i < 8")
      case lo: True
      then have "unat cursor mod 8 + i < 8" by (simp add: s_def)
      moreover have "i < k" using lo True by linarith
      ultimately show ?thesis
        unfolding bit_or_iff bf bs by (simp add: same_byte i1 s_def k_def)
    next
      case hi: False
      show ?thesis
      proof (cases "i < k")
        case ik: True
        have "8 \<le> unat cursor mod 8 + i" "i \<le> 8" using hi ik k by (simp_all add: s_def)
        from next_byte [OF this] next_byte(2) [OF ge kl] hi ik show ?thesis
          unfolding bit_or_iff bf bs by (simp add: i2 s_def k_def)
      next
        case False
        with hi show ?thesis
          unfolding bit_or_iff bf bs by (simp add: k_def)
      qed
    qed
    with res show ?thesis by blast
  qed
qed

subsection \<open>Consequences for buffers of at most 256 bytes, and for any buffer\<close>

text \<open>
  The byte indices of the control block are 8 bits wide, so the extraction reads the bytes
  at \<open>p div 8 mod 256\<close> and \<open>(p + n - 1) div 8 mod 256\<close> (\<open>next'_bits\<close>). Up to 256 bytes these
  are the bytes that hold the bits \<open>p, \<dots>, p + n - 1\<close>.
\<close>

lemma u8_width:
  fixes n :: u8
  assumes "0 < n" "n \<le> 8"
  shows "0 < unat n" "unat n \<le> 8"
    "0 < unat (ucast n :: size_t)" "unat (ucast n :: size_t) \<le> 8"
  using assms by (simp_all add: word_less_nat_alt word_le_nat_alt unat_cast_u8_size_t)

lemma next'_bits_small:
  fixes cursor :: size_t and n :: u8
  assumes n: "0 < n" "n \<le> 8"
    and fit: "unat cursor + unat n \<le> 8 * length buf"
    and small: "length buf \<le> 256"
  shows "\<exists>v. next' buf cursor n = Inr (v, cursor + ucast n)
     \<and> (\<forall>i. bit v i \<longleftrightarrow>
           i < unat n \<and> bit (buf ! ((unat cursor + i) div 8)) ((unat cursor + i) mod 8))"
proof -
  have cap: "8 * length buf < 2 ^ 64" using small by simp
  have "(unat cursor + i) div 8 mod 256 = (unat cursor + i) div 8" if "i < unat n" for i
  proof -
    have "unat cursor + i < 256 * 8" using that fit small by linarith
    then have "(unat cursor + i) div 8 < 256" by (rule less_mult_imp_div_less)
    then show ?thesis by simp
  qed
  with next'_bits [OF n fit cap] show ?thesis by auto
qed

lemma next'_passthrough:
  fixes cursor :: size_t
  assumes al: "unat cursor mod 8 = 0"
    and fit: "unat cursor + 8 \<le> 8 * length buf"
    and cap: "8 * length buf < 2 ^ 64"
  shows "next' buf cursor 8 = Inr (buf ! (unat cursor div 8 mod 256), cursor + 8)"
proof -
  have fit': "unat cursor + unat (8 :: u8) \<le> 8 * length buf" using fit by simp
  from next'_bits [OF _ _ fit' cap] obtain v where
    r: "next' buf cursor 8 = Inr (v, cursor + 8)"
    and b: "\<And>i. bit v i \<longleftrightarrow>
           i < 8 \<and> bit (buf ! ((unat cursor + i) div 8 mod 256)) ((unat cursor + i) mod 8)"
    by auto
  have "bit v i \<longleftrightarrow> bit (buf ! (unat cursor div 8 mod 256)) i" if "i < 8" for i
  proof -
    have "unat cursor mod 8 + i < 8" using that al by simp
    from same_byte [OF this] that show ?thesis by (simp add: b al)
  qed
  then have "v = buf ! (unat cursor div 8 mod 256)" by (intro bit_word_eqI) simp
  with r show ?thesis by simp
qed

lemma next'_depends:
  fixes cursor :: size_t and n :: u8
  assumes n: "0 < n" "n \<le> 8"
    and fit: "unat cursor + unat n \<le> 8 * length buf"
    and cap: "8 * length buf < 2 ^ 64"
    and len: "length buf' = length buf"
    and first: "buf' ! (unat cursor div 8 mod 256) = buf ! (unat cursor div 8 mod 256)"
    and last: "buf' ! ((unat cursor + (unat n - 1)) div 8 mod 256)
             = buf ! ((unat cursor + (unat n - 1)) div 8 mod 256)"
  shows "next' buf' cursor n = next' buf cursor n"
proof -
  note k = u8_width(1,2) [OF n]
  have fit': "unat cursor + unat n \<le> 8 * length buf'" using fit len by simp
  have cap': "8 * length buf' < 2 ^ 64" using cap len by simp
  from next'_bits [OF n fit cap] obtain v where
    r: "next' buf cursor n = Inr (v, cursor + ucast n)"
    and b: "\<And>i. bit v i \<longleftrightarrow>
           i < unat n \<and> bit (buf ! ((unat cursor + i) div 8 mod 256)) ((unat cursor + i) mod 8)"
    by auto
  from next'_bits [OF n fit' cap'] obtain v' where
    r': "next' buf' cursor n = Inr (v', cursor + ucast n)"
    and b': "\<And>i. bit v' i \<longleftrightarrow>
           i < unat n \<and> bit (buf' ! ((unat cursor + i) div 8 mod 256)) ((unat cursor + i) mod 8)"
    by auto
  have "buf' ! ((unat cursor + i) div 8 mod 256) = buf ! ((unat cursor + i) div 8 mod 256)"
    if "i < unat n" for i
  proof (cases "unat cursor mod 8 + i < 8")
    case True
    then show ?thesis by (simp only: same_byte(2) [OF True] first)
  next
    case False
    then have ge: "8 \<le> unat cursor mod 8 + i" by simp
    have "i \<le> 8" using that k by simp
    note a = next_byte(2) [OF ge this]
    have ge': "8 \<le> unat cursor mod 8 + (unat n - 1)" using ge that by linarith
    have "unat n - 1 \<le> 8" using k by simp
    note c = next_byte(2) [OF ge' this]
    show ?thesis using last by (simp only: a c)
  qed
  then have "bit v' i \<longleftrightarrow> bit v i" for i
    unfolding b b' by auto
  then have "v' = v" by (intro bit_word_eqI) simp
  with r r' show ?thesis by simp
qed

subsection \<open>The reader\<close>

text \<open>
  The cursor after \<open>doNext\<close>, in terms of the 8-bit width \<open>ucast N\<close> that reaches the
  extraction, for a cursor inside the buffer.
\<close>

lemma doNext_cursor:
  fixes N :: size_t
  assumes inv: "unat (cursor_read t) \<le> 8 * length (data t)"
    and cap: "8 * length (data t) + 8 < 2 ^ 64"
  shows "if 0 < (ucast N :: u8) \<and> (ucast N :: u8) \<le> 8
            \<and> unat (cursor_read t) + unat (ucast N :: u8) \<le> 8 * length (data t)
         then \<exists>v. doNext N t
                = (t\<lparr>cursor_read := cursor_read t + ucast (ucast N :: u8)\<rparr>,
                   Inr (bitset8_to_string v))
         else doNext N t = (t, Inl AssertionFailed)"
proof (cases "0 < (ucast N :: u8) \<and> (ucast N :: u8) \<le> 8")
  case False
  then show ?thesis
    by (auto simp add: doNext_def next'_def and_then_def assert_def)
next
  case n: True
  have cap': "8 * length (data t) < 2 ^ 64" using cap by simp
  show ?thesis
  proof (cases "unat (cursor_read t) + unat (ucast N :: u8) \<le> 8 * length (data t)")
    case True
    from n next'_bits [OF _ _ True cap'] obtain v where
      "next' (data t) (cursor_read t) (ucast N) = Inr (v, cursor_read t + ucast (ucast N :: u8))"
      by blast
    with n True show ?thesis by (auto simp add: doNext_def)
  next
    case False
    have "unat (ucast N :: u8) \<le> 8" using n by (simp add: word_le_nat_alt)
    then have "unat (cursor_read t) + unat (ucast N :: u8) < 2 ^ 64" using inv cap by linarith
    then have "unat (cursor_read t + ucast (ucast N :: u8))
        = unat (cursor_read t) + unat (ucast N :: u8)"
      by (rule unat_cursor_plus)
    with False have "\<not> cursor_read t + ucast (ucast N :: u8) \<le> 8 * extent (data t)"
      by (simp add: word_le_nat_alt unat_8_extent [OF cap'])
    with n False show ?thesis
      by (simp add: doNext_def next'_def and_then_def assert_def)
  qed
qed

subsection \<open>The recorded run\<close>

text \<open>
  Evaluation on concrete inputs unfolds the definitions. The source ends with the output of
  one run of \<^verbatim>\<open>main\<close>; the model gives the same strings and cursors (the cursor before
  each call is the one the trace prints).
\<close>

lemmas next'_eval = next'_def and_then_def assert_def extent_def Ctrl_ctor_def Ctrl_members_def
  at_def select_def shift_def Let_def nth_append

lemma recorded_output:
  "map (\<lambda>(N, p). doNext N \<lparr>data = main_s, cursor_read = p, cursor_write = 0\<rparr>)
     [(1, 0), (4, 1), (7, 5), (1, 0), (7, 1), (1, 8), (6, 9), (1, 15), (8, 0), (8, 8), (8, 16)]
   = map (\<lambda>(p, out). (\<lparr>data = main_s, cursor_read = p, cursor_write = 0\<rparr>, Inr out))
     [(1, ''00000001''), (5, ''00001110''), (12, ''01010111''), (1, ''00000001''),
      (8, ''01111110''), (9, ''00000000''), (15, ''00000101''), (16, ''00000001''),
      (8, ''11111101''), (16, ''10001010''), (24, ''11110111'')]"
  by (simp add: main_s_def doNext_def bitset8_to_string_def next'_eval)

section \<open>The claims\<close>

text \<open>
  In the theorems below the buffer is \<open>buf\<close> with \<open>N = length buf\<close>, a position is
  \<open>unat cursor\<close> and a width is \<open>unat n\<close>. The hypothesis \<open>8 * length buf < 2 ^ 64\<close> says that
  the bit capacity \<open>8 * N\<close>, which \<^verbatim>\<open>next\<close> computes in \<^verbatim>\<open>std::size_t\<close>, does not wrap:
  the span has fewer than \<open>2 ^ 61\<close> bytes, as every span in a 64-bit address space has.
\<close>

text \<open>
  C1. For \<open>1 \<le> n \<le> 8\<close> and \<open>p + n \<le> 8 * N\<close>, bit \<open>j\<close> of the value returned by \<^verbatim>\<open>next\<close>
  is global bit \<open>p + j\<close> of the buffer for \<open>j < n\<close>, the bits from \<open>n\<close> on are zero, and the new
  position is \<open>p + n\<close>. This holds up to 256 bytes (\<open>next'_bits_small\<close>). With 257 bytes, of
  which only the last is non-zero, the field of 1 bit at position 2048 is bit 0 of byte 256,
  which is set; \<^verbatim>\<open>ByteIndex(cursor / 8)\<close> is 0, and the value returned is 0.
\<close>

theorem next'_wrong_byte:
  "unat (2048 :: size_t) + unat (1 :: u8) \<le> 8 * length (replicate 256 0 @ [1 :: u8])
   \<and> next' (replicate 256 0 @ [1]) 2048 1 = Inr (0, 2049)
   \<and> bit ((replicate 256 0 @ [1 :: u8]) ! ((2048 + 0) div 8)) ((2048 + 0) mod 8)
   \<and> \<not> bit (0 :: u8) 0"
  by (simp add: next'_eval)

text \<open>
  C2. For \<open>1 \<le> n \<le> 8\<close> and \<open>p + n \<le> 8 * N\<close> the constructor of the control block passes
  its assertions: \<open>countFirst + countSecond = n\<close>, \<open>countSecond = max (n - countFirst) 0\<close>,
  \<open>byteFirst < N\<close> and \<open>byteLast < N\<close>; both reads of the buffer are inside it, and the
  extraction returns.
\<close>

theorem Ctrl_invariants:
  fixes cursor :: size_t and n :: u8
  assumes n: "0 < n" "n \<le> 8"
    and fit: "unat cursor + unat n \<le> 8 * length buf"
    and cap: "8 * length buf < 2 ^ 64"
  shows "\<exists>c. Ctrl_ctor (extent buf) cursor (ucast n) = Inr c
     \<and> unat (fst (count c)) + unat (snd (count c)) = unat n
     \<and> int (unat (snd (count c))) = max (int (unat n) - int (unat (fst (count c)))) 0
     \<and> unat (fst (byte c)) < length buf \<and> unat (snd (byte c)) < length buf
     \<and> at buf (fst (byte c)) = Inr (buf ! unat (fst (byte c)))
     \<and> at buf (snd (byte c)) = Inr (buf ! unat (snd (byte c)))
     \<and> (\<exists>r. next' buf cursor n = Inr r)"
proof -
  let ?c = "Ctrl_members cursor (ucast n)"
  note kn = u8_width(3,4) [OF n]
  have len: "length buf < 2 ^ 64" using cap by simp
  have nowrap: "unat cursor + unat (ucast n :: size_t) < 2 ^ 64"
    using fit cap by (simp add: unat_cast_u8_size_t)
  have fit': "unat cursor + unat (ucast n :: size_t) \<le> 8 * unat (extent buf)"
    using fit by (simp only: unat_cast_u8_size_t unat_extent [OF len])
  have ctor: "Ctrl_ctor (extent buf) cursor (ucast n) = Inr ?c"
    by (rule Ctrl_ctor_Inr [OF kn fit' nowrap])
  have sum: "unat (fst (count ?c)) + unat (snd (count ?c)) = unat n"
    using count_sum [OF kn nowrap] by (simp only: unat_cast_u8_size_t)
  then have mx: "int (unat (snd (count ?c))) = max (int (unat n) - int (unat (fst (count ?c)))) 0"
    by linarith
  have lt1: "unat (fst (byte ?c)) < length buf"
    using byte_first_less [OF kn(1) fit']
    by (simp add: word_less_nat_alt unat_cast_u8_size_t unat_extent [OF len])
  have lt2: "unat (snd (byte ?c)) < length buf"
    using byte_second_less [OF kn(1) fit' nowrap]
    by (simp add: word_less_nat_alt unat_cast_u8_size_t unat_extent [OF len])
  from next'_bits [OF n fit cap] have ok: "\<exists>r. next' buf cursor n = Inr r" by blast
  from ctor sum mx lt1 lt2 at_Inr [OF lt1] at_Inr [OF lt2] ok show ?thesis by blast
qed

text \<open>In \<^verbatim>\<open>main\<close>'s buffer, 7 bits at position 5: the field spans bytes 0 and 1.\<close>

theorem Ctrl_invariants_witness:
  "(0 :: u8) < 7 \<and> (7 :: u8) \<le> 8
   \<and> unat (5 :: size_t) + unat (7 :: u8) \<le> 8 * length main_s
   \<and> 8 * length main_s < 2 ^ 64
   \<and> (\<exists>c. Ctrl_ctor (extent main_s) 5 (ucast (7 :: u8)) = Inr c
     \<and> unat (fst (count c)) + unat (snd (count c)) = unat (7 :: u8)
     \<and> int (unat (snd (count c))) = max (int (unat (7 :: u8)) - int (unat (fst (count c)))) 0
     \<and> unat (fst (byte c)) < length main_s
     \<and> unat (snd (byte c)) < length main_s
     \<and> at main_s (fst (byte c)) = Inr (main_s ! unat (fst (byte c)))
     \<and> at main_s (snd (byte c)) = Inr (main_s ! unat (snd (byte c)))
     \<and> (\<exists>r. next' main_s 5 7 = Inr r))"
proof -
  have h1: "(0 :: u8) < 7" and h2: "(7 :: u8) \<le> 8"
    and h3: "unat (5 :: size_t) + unat (7 :: u8) \<le> 8 * length main_s"
    and h4: "8 * length main_s < 2 ^ 64"
    by (simp_all add: main_s_def)
  from Ctrl_invariants [OF h1 h2 h3 h4] h1 h2 h3 h4 show ?thesis by blast
qed

text \<open>
  C3. For every byte \<open>b\<close> and every \<open>start \<le> stop \<le> 7\<close>, \<open>select b start stop\<close> returns the
  byte whose bit \<open>i\<close> is bit \<open>i\<close> of \<open>b\<close> when \<open>start \<le> i \<le> stop\<close> and 0 otherwise; with
  \<open>start > stop\<close> or a bound above 7 an assertion fails and the program aborts.
\<close>

theorem select_spec:
  fixes b start stop :: u8
  shows "(start \<le> stop \<and> stop \<le> 7 \<longrightarrow>
      (\<exists>v. select b start stop = Inr v
         \<and> (\<forall>i. bit v i \<longleftrightarrow> unat start \<le> i \<and> i \<le> unat stop \<and> bit b i)))
    \<and> (stop < start \<or> 7 < start \<or> 7 < stop \<longrightarrow> select b start stop = Inl AssertionFailed)"
proof (intro conjI impI)
  assume a: "start \<le> stop \<and> stop \<le> 7"
  then have "unat stop \<le> 7" by (simp add: word_le_nat_alt)
  from bit_select_raw [OF this] select_Inr [of start stop b] a
  show "\<exists>v. select b start stop = Inr v
         \<and> (\<forall>i. bit v i \<longleftrightarrow> unat start \<le> i \<and> i \<le> unat stop \<and> bit b i)"
    by blast
next
  assume "stop < start \<or> 7 < start \<or> 7 < stop"
  then have "\<not> start < 8 \<or> \<not> stop < 8 \<or> \<not> start \<le> stop"
    by (auto simp add: word_less_nat_alt word_le_nat_alt)
  then show "select b start stop = Inl AssertionFailed"
    by (auto simp add: select_def and_then_def assert_def)
qed

text \<open>At \<open>b = 0b10110110\<close>: bits 1 to 4 are kept, and the range \<open>(5, 2)\<close> aborts.\<close>

theorem select_spec_witness:
  "((1 :: u8) \<le> 4 \<and> (4 :: u8) \<le> 7) \<and>
   (\<exists>v. select 182 1 4 = Inr v
         \<and> (\<forall>i. bit v i \<longleftrightarrow> unat (1 :: u8) \<le> i \<and> i \<le> unat (4 :: u8) \<and> bit (182 :: u8) i))
   \<and> ((2 :: u8) < 5 \<or> (7 :: u8) < 5 \<or> (7 :: u8) < 2) \<and> select 182 5 2 = Inl AssertionFailed"
proof -
  have h1: "(1 :: u8) \<le> 4 \<and> (4 :: u8) \<le> 7" by simp
  have h2: "(2 :: u8) < 5 \<or> (7 :: u8) < 5 \<or> (7 :: u8) < 2" by simp
  from select_spec [of 1 4 182] h1 select_spec [of 5 2 182] h2 show ?thesis by blast
qed

text \<open>
  C4. For every byte \<open>b\<close>, every \<open>start \<le> 7\<close> and every \<open>offset \<le> 8\<close>,
  \<open>shift b start offset\<close> is \<open>((b >> start) << offset) mod 2 ^ 8\<close>: the bits shifted past
  bit 7 are dropped.
\<close>

theorem shift_spec:
  fixes b start offset :: u8
  assumes "start \<le> 7" "offset \<le> 8"
  shows "\<exists>v. shift b start offset = Inr v
     \<and> unat v = (unat b div 2 ^ unat start * 2 ^ unat offset) mod 2 ^ 8"
  using shift_Inr [OF assms, of b] unat_shift_raw [of offset start b] by blast

text \<open>At \<open>b = 250\<close>, \<open>start = 3\<close>, \<open>offset = 6\<close> the result is \<open>31 * 64 mod 256 = 192\<close>.\<close>

theorem shift_spec_witness:
  "(3 :: u8) \<le> 7 \<and> (6 :: u8) \<le> 8 \<and> (\<exists>v. shift 250 3 6 = Inr v
     \<and> unat v = (unat (250 :: u8) div 2 ^ unat (3 :: u8) * 2 ^ unat (6 :: u8)) mod 2 ^ 8)"
proof -
  have h1: "(3 :: u8) \<le> 7" and h2: "(6 :: u8) \<le> 8" by simp_all
  from shift_spec [OF h1 h2, of 250] h1 h2 show ?thesis by blast
qed

text \<open>
  C5. When two fields of \<open>n1\<close> and \<open>n2\<close> bits lie in one byte (\<open>p mod 8 + n1 + n2 \<le> 8\<close>) and
  inside the buffer, reading \<open>n1\<close> bits at \<open>p\<close> and then \<open>n2\<close> bits at the position the first read
  returns gives \<open>v1\<close> and \<open>v2\<close> with \<open>v1 | (v2 << n1)\<close> the value of one read of \<open>n1 + n2\<close> bits
  at \<open>p\<close>; both ways end at the same position.
\<close>

theorem next'_compose:
  fixes cursor :: size_t and n1 n2 :: u8
  assumes n1: "0 < n1" and n2: "0 < n2"
    and same: "unat cursor mod 8 + unat n1 + unat n2 \<le> 8"
    and fit: "unat cursor + unat n1 + unat n2 \<le> 8 * length buf"
    and cap: "8 * length buf < 2 ^ 64"
    and r1: "next' buf cursor n1 = Inr (v1, p1)"
    and r2: "next' buf p1 n2 = Inr (v2, p2)"
  shows "next' buf cursor (n1 + n2) = Inr (v1 OR push_bit (unat n1) v2, p2)"
proof -
  have le8: "unat n1 + unat n2 \<le> 8" using same by linarith
  then have le1: "n1 \<le> 8" and le2: "n2 \<le> 8" by (simp_all add: word_le_nat_alt)
  have "unat n1 + unat n2 < 2 ^ LENGTH(8)" using le8 by simp
  then have u: "unat (n1 + n2) = unat n1 + unat n2" by (simp only: unat_add_lem)
  have n12: "0 < n1 + n2" "n1 + n2 \<le> 8"
    using n1 le8 by (simp_all add: word_less_nat_alt word_le_nat_alt u)
  have fit1: "unat cursor + unat n1 \<le> 8 * length buf" using fit by simp
  have nowrap1: "unat cursor + unat n1 < 2 ^ 64" using fit1 cap by simp
  from next'_bits [OF n1 le1 fit1 cap] r1
  have p1: "p1 = cursor + ucast n1"
    and b1: "\<And>i. bit v1 i \<longleftrightarrow> i < unat n1
        \<and> bit (buf ! ((unat cursor + i) div 8 mod 256)) ((unat cursor + i) mod 8)"
    by auto
  have up1: "unat p1 = unat cursor + unat n1"
    by (simp only: p1 unat_cursor_plus [OF nowrap1])
  have fit2: "unat p1 + unat n2 \<le> 8 * length buf" using fit by (simp only: up1)
  from next'_bits [OF n2 le2 fit2 cap] r2
  have p2: "p2 = p1 + ucast n2"
    and b2: "\<And>i. bit v2 i \<longleftrightarrow> i < unat n2
        \<and> bit (buf ! ((unat cursor + unat n1 + i) div 8 mod 256)) ((unat cursor + unat n1 + i) mod 8)"
    by (auto simp only: up1)
  have fit12: "unat cursor + unat (n1 + n2) \<le> 8 * length buf"
    using fit by (simp only: u add.assoc)
  from next'_bits [OF n12 fit12 cap] obtain v where
    r: "next' buf cursor (n1 + n2) = Inr (v, cursor + ucast (n1 + n2))"
    and b: "\<And>i. bit v i \<longleftrightarrow> i < unat n1 + unat n2
        \<and> bit (buf ! ((unat cursor + i) div 8 mod 256)) ((unat cursor + i) mod 8)"
    by (auto simp only: u)
  have "unat (ucast n1 :: size_t) + unat (ucast n2 :: size_t) < 2 ^ LENGTH(64)"
    using le8 by (simp add: unat_cast_u8_size_t)
  then have "unat (ucast n1 + ucast n2 :: size_t) = unat n1 + unat n2"
    by (simp only: unat_add_lem [THEN iffD1] unat_cast_u8_size_t)
  then have "(ucast (n1 + n2) :: size_t) = ucast n1 + ucast n2"
    by (simp only: word_unat_eq_iff unat_cast_u8_size_t u)
  then have pos: "cursor + ucast (n1 + n2) = p2"
    by (simp only: p1 p2 add.assoc)
  have "bit v i \<longleftrightarrow> bit (v1 OR push_bit (unat n1) v2) i" for i
  proof (cases "i < unat n1")
    case True
    then show ?thesis
      by (simp add: b b1 bit_or_iff bit_push_bit_iff)
  next
    case False
    then have "unat cursor + unat n1 + (i - unat n1) = unat cursor + i" by simp
    moreover have "i - unat n1 < unat n2 \<longleftrightarrow> i < unat n1 + unat n2" using False by linarith
    moreover have "i < unat n1 + unat n2 \<Longrightarrow> i < 8" using le8 by linarith
    ultimately show ?thesis using False
      by (auto simp add: b b1 b2 bit_or_iff bit_push_bit_iff)
  qed
  then have "v = v1 OR push_bit (unat n1) v2" by (intro bit_word_eqI) simp
  with r pos show ?thesis by simp
qed

text \<open>In \<^verbatim>\<open>main\<close>'s buffer, 2 bits and then 3 bits from position 1.\<close>

theorem next'_compose_witness:
  "(0 :: u8) < 2 \<and> (0 :: u8) < 3
   \<and> unat (1 :: size_t) mod 8 + unat (2 :: u8) + unat (3 :: u8) \<le> 8
   \<and> unat (1 :: size_t) + unat (2 :: u8) + unat (3 :: u8) \<le> 8 * length main_s
   \<and> 8 * length main_s < 2 ^ 64
   \<and> next' main_s 1 2 = Inr (2, 3)
   \<and> next' main_s 3 3 = Inr (7, 6)
   \<and> next' main_s 1 (2 + 3) = Inr (2 OR push_bit (unat (2 :: u8)) 7, 6)"
proof -
  have h1: "(0 :: u8) < 2" and h2: "(0 :: u8) < 3"
    and h3: "unat (1 :: size_t) mod 8 + unat (2 :: u8) + unat (3 :: u8) \<le> 8"
    and h4: "unat (1 :: size_t) + unat (2 :: u8) + unat (3 :: u8) \<le> 8 * length main_s"
    and h5: "8 * length main_s < 2 ^ 64"
    by (simp_all add: main_s_def)
  have h6: "next' main_s 1 2 = Inr (2, 3)"
    and h7: "next' main_s 3 3 = Inr (7, 6)"
    by (simp_all add: main_s_def next'_eval)
  from next'_compose [OF h1 h2 h3 h4 h5 h6 h7] h1 h2 h3 h4 h5 h6 h7 show ?thesis by blast
qed

text \<open>
  C6. Reading 8 bits at a byte-aligned position \<open>p\<close> with \<open>p + 8 \<le> 8 * N\<close> returns
  \<open>buffer[p / 8]\<close> and the position \<open>p + 8\<close>. The extraction returns the byte at
  \<open>p div 8 mod 256\<close> (\<open>next'_passthrough\<close>). With 257 bytes, the last of them 255 and the
  others 0, 8 bits at position 2048 are read from byte 0: the value is 0, not 255.
\<close>

theorem next'_no_passthrough:
  "unat (2048 :: size_t) mod 8 = 0
   \<and> unat (2048 :: size_t) + 8 \<le> 8 * length (replicate 256 0 @ [255 :: u8])
   \<and> next' (replicate 256 0 @ [255]) 2048 8 = Inr (0, 2056)
   \<and> (replicate 256 0 @ [255 :: u8]) ! (unat (2048 :: size_t) div 8) = 255"
  by (simp add: next'_eval)

text \<open>
  C7. For \<open>1 \<le> n \<le> 8\<close>, the extraction at the position \<open>p\<close> with \<open>p + n = 8 * N\<close> returns, and
  at the position with \<open>p + n = 8 * N + 1\<close> the assertion \<^verbatim>\<open>(cursor + n) <= (8 * N)\<close> fails
  and the program aborts.
\<close>

theorem next'_boundary:
  fixes cursor :: size_t and n :: u8
  assumes n: "0 < n" "n \<le> 8" and cap: "8 * length buf < 2 ^ 64"
  shows "(unat cursor + unat n = 8 * length buf
            \<longrightarrow> (\<exists>v. next' buf cursor n = Inr (v, cursor + ucast n)))
       \<and> (unat cursor + unat n = 8 * length buf + 1
            \<longrightarrow> next' buf cursor n = Inl AssertionFailed)"
proof (intro conjI impI)
  assume "unat cursor + unat n = 8 * length buf"
  then have "unat cursor + unat n \<le> 8 * length buf" by simp
  from next'_bits [OF n this cap]
  show "\<exists>v. next' buf cursor n = Inr (v, cursor + ucast n)" by blast
next
  assume over: "unat cursor + unat n = 8 * length buf + 1"
  have "length buf < 2 ^ 61" using cap by simp
  then have "8 * length buf + 1 < (2 :: nat) ^ 64" by simp
  then have "unat cursor + unat n < 2 ^ 64" using over by simp
  then have "unat (cursor + ucast n) = 8 * length buf + 1"
    using over by (simp only: unat_cursor_plus)
  then have "\<not> cursor + ucast n \<le> 8 * extent buf"
    by (simp add: word_le_nat_alt unat_8_extent [OF cap])
  with n show "next' buf cursor n = Inl AssertionFailed"
    by (simp add: next'_def and_then_def assert_def)
qed

text \<open>In \<^verbatim>\<open>main\<close>'s buffer of 24 bits, 3 bits at position 21 and at position 22.\<close>

theorem next'_boundary_witness:
  "(0 :: u8) < 3 \<and> (3 :: u8) \<le> 8 \<and> 8 * length main_s < 2 ^ 64
   \<and> unat (21 :: size_t) + unat (3 :: u8) = 8 * length main_s
   \<and> (\<exists>v. next' main_s 21 3 = Inr (v, 21 + ucast (3 :: u8)))
   \<and> unat (22 :: size_t) + unat (3 :: u8) = 8 * length main_s + 1
   \<and> next' main_s 22 3 = Inl AssertionFailed"
proof -
  have h1: "(0 :: u8) < 3" and h2: "(3 :: u8) \<le> 8"
    and h3: "8 * length main_s < 2 ^ 64"
    and h4: "unat (21 :: size_t) + unat (3 :: u8) = 8 * length main_s"
    and h5: "unat (22 :: size_t) + unat (3 :: u8) = 8 * length main_s + 1"
    by (simp_all add: main_s_def)
  from next'_boundary [OF h1 h2 h3, of 21] next'_boundary [OF h1 h2 h3, of 22] h1 h2 h3 h4 h5
  show ?thesis by blast
qed

text \<open>
  C8. \<^verbatim>\<open>doNext<n>\<close> moves the read cursor to \<open>readPos + n\<close> exactly when \<open>1 \<le> n \<le> 8\<close> and
  \<open>readPos + n \<le> 8 * N\<close>, and leaves it unchanged otherwise. The width is cast to
  \<^verbatim>\<open>std::uint8_t\<close> before \<^verbatim>\<open>next\<close> asserts \<open>n \<le> 8\<close>, and the claim holds for the width
  after the cast (\<open>doNext_cursor\<close>). The width 257 becomes 1: on \<^verbatim>\<open>main\<close>'s buffer the
  call returns one bit and moves the cursor from 0 to 1.
\<close>

theorem doNext_width_257:
  "\<not> (257 :: size_t) \<le> 8
   \<and> doNext 257 \<lparr>data = main_s, cursor_read = 0, cursor_write = 0\<rparr>
     = (\<lparr>data = main_s, cursor_read = 1, cursor_write = 0\<rparr>, Inr ''00000001'')"
  by (simp add: main_s_def doNext_def bitset8_to_string_def next'_eval)

text \<open>
  C9. A call of \<^verbatim>\<open>doNext\<close> that returns changes only the read cursor: the write cursor
  and every byte of the buffer are as before.
\<close>

theorem doNext_frame:
  assumes "doNext N t = (t', Inr out)"
  shows "cursor_write t' = cursor_write t \<and> data t' = data t
     \<and> (\<forall>i < length (data t). data t' ! i = data t ! i)"
  using assms by (auto simp add: doNext_def split: sum.splits)

text \<open>The third call of \<^verbatim>\<open>main\<close>: 7 bits at position 5.\<close>

theorem doNext_frame_witness:
  "doNext 7 \<lparr>data = main_s, cursor_read = 5, cursor_write = 0\<rparr>
     = (\<lparr>data = main_s, cursor_read = 12, cursor_write = 0\<rparr>, Inr ''01010111'')
   \<and> cursor_write \<lparr>data = main_s, cursor_read = 12, cursor_write = 0\<rparr>
       = cursor_write \<lparr>data = main_s, cursor_read = 5, cursor_write = 0\<rparr>
   \<and> data \<lparr>data = main_s, cursor_read = 12, cursor_write = 0\<rparr>
       = data \<lparr>data = main_s, cursor_read = 5, cursor_write = 0\<rparr>"
proof -
  have h: "doNext 7 \<lparr>data = main_s, cursor_read = 5, cursor_write = 0\<rparr>
     = (\<lparr>data = main_s, cursor_read = 12, cursor_write = 0\<rparr>, Inr ''01010111'')"
    by (simp add: main_s_def doNext_def bitset8_to_string_def next'_eval)
  from doNext_frame [OF h] h show ?thesis by blast
qed

text \<open>
  C10. For \<open>1 \<le> n \<le> 8\<close> and \<open>p + n \<le> 8 * N\<close> the result of \<^verbatim>\<open>next\<close> depends only on the
  bytes at \<open>p div 8\<close> and \<open>(p + n - 1) div 8\<close>. The result depends only on the bytes at these
  indices modulo 256 (\<open>next'_depends\<close>). Two buffers of 257 bytes that are equal at index 256
  and differ at index 0 give different values for 1 bit at position 2048.
\<close>

theorem next'_depends_on_other_byte:
  "unat (2048 :: size_t) + unat (1 :: u8) \<le> 8 * length (0 # replicate 255 0 @ [0 :: u8])
   \<and> length (1 # replicate 255 0 @ [0 :: u8]) = length (0 # replicate 255 0 @ [0 :: u8])
   \<and> (1 # replicate 255 0 @ [0 :: u8]) ! (2048 div 8) = (0 # replicate 255 0 @ [0 :: u8]) ! (2048 div 8)
   \<and> (1 # replicate 255 0 @ [0 :: u8]) ! ((2048 + 1 - 1) div 8) = (0 # replicate 255 0 @ [0 :: u8]) ! ((2048 + 1 - 1) div 8)
   \<and> next' (1 # replicate 255 0 @ [0]) 2048 1 = Inr (1, 2049)
   \<and> next' (0 # replicate 255 0 @ [0]) 2048 1 = Inr (0, 2049)"
  by (simp add: next'_eval)

end
